theory Spec2Isabelle
  imports Complex_Main "HOL-Library.Word" "HOL-Library.Multiset" "HOL-Library.Sublist"
    "HOL-Library.List_Lexorder"
begin

section \<open>Data model of pan-pingable-hosts (main.go)\<close>

text \<open>
  The program downloads the ARP cache of a firewall, groups its entries by interface,
  pings the addresses of each interface until \<open>numAddrs\<close> of them have answered, and prints
  the answering addresses sorted by their parsed value.  The model covers \<open>main\<close> from
  the grouping loop to the printing loop, \<open>getPingableAddresses\<close> and \<open>pingAddr\<close>.
  The libraries the code calls (go-ping, \<open>net.ParseIP\<close>, the order in which \<open>range\<close>
  visits a Go map) are parameters of the model.
\<close>

type_synonym byte = "8 word"

text \<open>\<open>net.IP\<close> is a byte slice; the nil slice is the empty list.\<close>

type_synonym IP = "byte list"

text \<open>\<open>type Interface struct { Name string; Address string }\<close>\<close>

record Interface =
  Name :: string
  Address :: string

text \<open>\<open>type ArpCache struct { Entries []Interface }\<close>\<close>

record ArpCache =
  Entries :: "Interface list"

text \<open>
  \<open>ping.Statistics\<close>: the code reads the field \<open>PacketLoss\<close> only (a float64 percentage),
  and only compares it with 0; a value that is not a number compares unequal to 0, as any
  value other than 0 does here.
\<close>

record Statistics =
  PacketLoss :: real

text \<open>
  What the go-ping library answers to one use by \<open>pingAddr\<close>: \<open>ping.NewPinger\<close> returns an
  error, or \<open>pinger.Run\<close> returns an error, or \<open>pinger.Statistics\<close> delivers the statistics.
\<close>

datatype ping_result =
  NewPinger_err string
  | Run_err
  | Run_ok Statistics

text \<open>
  The library as a function of the address, the configured \<open>pinger.Timeout\<close> (a
  \<open>time.Duration\<close>, int64 nanoseconds) and the state of the world (network, privileges),
  which a probe may change: the same address can answer differently each time.  The other
  settings of the pinger are constants of the code (privileged mode, one packet).
\<close>

type_synonym 'w go_ping = "string \<Rightarrow> 64 word \<Rightarrow> 'w \<Rightarrow> ping_result \<times> 'w"

text \<open>
  How the process ends early: \<open>panic(err)\<close>, or \<open>log.Fatalf\<close>, which calls \<open>os.Exit(1)\<close>.
\<close>

datatype abort =
  panic string
  | os_Exit int

text \<open>The exit status of the process: the Go runtime exits with status 2 on a panic.\<close>

fun exit_status :: "abort \<Rightarrow> int" where
  "exit_status (panic e) = 2"
| "exit_status (os_Exit n) = n"

text \<open>
  The state threaded through the run: the world, the calls of \<open>pingAddr\<close> made so far
  (address and what the library answered, oldest first), the addresses handed to
  \<open>fmt.Println\<close> (one line of standard output each, in the text form that \<open>net.IP\<close> gives
  them) and the texts written to standard error.
\<close>

record 'w process =
  world :: 'w
  pings :: "(string \<times> ping_result) list"
  stdout :: "IP list"
  stderr :: "string list"

type_synonym ('w, 'a) result = "(abort \<times> 'w process) + ('a \<times> 'w process)"

definition start :: "'w \<Rightarrow> 'w process" where
  "start w = \<lparr>world = w, pings = [], stdout = [], stderr = []\<rparr>"

text \<open>The state in which a computation ended, aborted or not.\<close>

fun final :: "('w, 'a) result \<Rightarrow> 'w process" where
  "final (Inl (e, s)) = s"
| "final (Inr (x, s)) = s"

text \<open>The addresses probed between two states of the same run.\<close>

definition probed :: "'w process \<Rightarrow> 'w process \<Rightarrow> (string \<times> ping_result) list" where
  "probed s s' = drop (length (pings s)) (pings s')"

section \<open>pingAddr\<close>

text \<open>\<open>strings.HasPrefix(s, prefix)\<close>\<close>

definition HasPrefix :: "string \<Rightarrow> string \<Rightarrow> bool" where
  "HasPrefix s p \<longleftrightarrow> length p \<le> length s \<and> take (length p) s = p"

text \<open>
  \<open>time.Duration(timeout) * time.Millisecond\<close>: an int64 product, which wraps around.
\<close>

definition Duration_ms :: "int \<Rightarrow> 64 word" where
  "Duration_ms timeout = word_of_int timeout * 1000000"

definition Fprintf_stderr :: "string \<Rightarrow> 'w process \<Rightarrow> 'w process" where
  "Fprintf_stderr msg s = s\<lparr>stderr := stderr s @ [msg]\<rparr>"

text \<open>The message of \<open>log.Fatalf\<close> in \<open>pingAddr\<close> (the log package puts the date before it).\<close>

definition sudo_msg :: string where
  "sudo_msg = ''ICMP socket operations require '' @ [CHR 0x27] @ ''sudo'' @ [CHR 0x27, CHR 0x0A]"

definition pingAddr :: "'w go_ping \<Rightarrow> string \<Rightarrow> int \<Rightarrow> 'w process \<Rightarrow> ('w, Statistics) result" where
  "pingAddr lib addr timeout s =
     (case lib addr (Duration_ms timeout) (world s) of
        (r, w') \<Rightarrow>
          let s' = s\<lparr>world := w', pings := pings s @ [(addr, r)]\<rparr> in
          (case r of
             NewPinger_err e \<Rightarrow> Inl (panic e, Fprintf_stderr (''panic: '' @ e) s')
           | Run_err \<Rightarrow> Inl (os_Exit 1, Fprintf_stderr sudo_msg s')
           | Run_ok stats \<Rightarrow> Inr (stats, s')))"

section \<open>getPingableAddresses\<close>

text \<open>
  The \<open>for ... range addrs\<close> loop, with \<open>pingableAddrs\<close> as accumulator: \<open>continue\<close> on an
  address that begins with 0, append on \<open>PacketLoss == 0\<close>, \<open>break\<close> when the length of
  the accumulator equals \<open>numAddrs\<close> (tested after every probe).
\<close>

fun addrs_loop ::
  "'w go_ping \<Rightarrow> int \<Rightarrow> int \<Rightarrow> string list \<Rightarrow> string list \<Rightarrow> 'w process \<Rightarrow> ('w, string list) result"
where
  "addrs_loop lib numAddrs timeout [] pingableAddrs s = Inr (pingableAddrs, s)"
| "addrs_loop lib numAddrs timeout (addr # rest) pingableAddrs s =
     (if HasPrefix addr ''0'' then addrs_loop lib numAddrs timeout rest pingableAddrs s
      else
        (case pingAddr lib addr timeout s of
           Inl a \<Rightarrow> Inl a
         | Inr (stats, s') \<Rightarrow>
             let pingableAddrs' =
                   (if PacketLoss stats = 0 then pingableAddrs @ [addr] else pingableAddrs)
             in if int (length pingableAddrs') = numAddrs then Inr (pingableAddrs', s')
                else addrs_loop lib numAddrs timeout rest pingableAddrs' s'))"

definition getPingableAddresses ::
  "'w go_ping \<Rightarrow> string list \<Rightarrow> int \<Rightarrow> int \<Rightarrow> 'w process \<Rightarrow> ('w, string list) result"
where
  "getPingableAddresses lib addrs numAddrs timeout s = addrs_loop lib numAddrs timeout addrs [] s"

section \<open>main: grouping, harvesting, sorting, printing\<close>

text \<open>
  Reading a Go map at a key it does not hold gives the zero value, here the nil slice.
\<close>

definition index :: "(string \<rightharpoonup> string list) \<Rightarrow> string \<Rightarrow> string list" where
  "index m k = (case m k of None \<Rightarrow> [] | Some v \<Rightarrow> v)"

text \<open>
  \<open>for _, int := range arpCache.Entries { interfaces[int.Name] = append(interfaces[int.Name], int.Address) }\<close>
\<close>

fun entries_loop :: "Interface list \<Rightarrow> (string \<rightharpoonup> string list) \<Rightarrow> (string \<rightharpoonup> string list)" where
  "entries_loop [] interfaces = interfaces"
| "entries_loop (e # es) interfaces =
     entries_loop es (interfaces(Name e \<mapsto> index interfaces (Name e) @ [Address e]))"

text \<open>\<open>interfaces := make(map[string][]string)\<close>, then the loop.\<close>

definition group :: "ArpCache \<Rightarrow> (string \<rightharpoonup> string list)" where
  "group arpCache = entries_loop (Entries arpCache) Map.empty"

text \<open>
  \<open>range\<close> over a Go map visits every key once, in an order the language leaves open:
  the order is an input of the model, a list \<open>ks\<close> of the keys.
\<close>

definition range_order :: "('k \<rightharpoonup> 'v) \<Rightarrow> 'k list \<Rightarrow> bool" where
  "range_order m ks \<longleftrightarrow> distinct ks \<and> set ks = dom m"

text \<open>
  \<open>for _, addrs := range interfaces { pingableHosts = append(pingableHosts, getPingableAddresses(addrs, numAddresses, timeout)...) }\<close>
\<close>

fun interfaces_loop ::
  "'w go_ping \<Rightarrow> (string \<rightharpoonup> string list) \<Rightarrow> int \<Rightarrow> int \<Rightarrow> string list \<Rightarrow> string list \<Rightarrow>
     'w process \<Rightarrow> ('w, string list) result"
where
  "interfaces_loop lib interfaces numAddresses timeout [] pingableHosts s = Inr (pingableHosts, s)"
| "interfaces_loop lib interfaces numAddresses timeout (k # ks) pingableHosts s =
     (case getPingableAddresses lib (index interfaces k) numAddresses timeout s of
        Inl a \<Rightarrow> Inl a
      | Inr (found, s') \<Rightarrow>
          interfaces_loop lib interfaces numAddresses timeout ks (pingableHosts @ found) s')"

text \<open>
  \<open>bytes.Compare(a, b)\<close>: -1, 0 or 1 as \<open>a\<close> is lexicographically less than, equal to or
  greater than \<open>b\<close>, bytes compared unsigned; a nil argument is an empty slice.
\<close>

fun bytes_Compare :: "byte list \<Rightarrow> byte list \<Rightarrow> int" where
  "bytes_Compare [] [] = 0"
| "bytes_Compare [] (b # bs) = - 1"
| "bytes_Compare (a # as) [] = 1"
| "bytes_Compare (a # as) (b # bs) =
     (if a < b then - 1 else if b < a then 1 else bytes_Compare as bs)"

text \<open>
  \<open>sort.Slice(x, less)\<close> leaves \<open>x\<close> sorted by \<open>less\<close>; it is not stable.  The model
  sorts by insertion, \<open>less\<close> taking the two elements instead of their indices.  Where
  \<open>less\<close> is a strict linear order on the elements, as \<open>bytes.Compare(a, b) < 0\<close> is, there
  is only one sorted arrangement of a slice (lemma \<open>sort_Slice_unique\<close> below), so the
  algorithm makes no difference.  The parameter \<open>lt\<close> is the closure \<open>less\<close>.
\<close>

fun insert_by :: "('a \<Rightarrow> 'a \<Rightarrow> bool) \<Rightarrow> 'a \<Rightarrow> 'a list \<Rightarrow> 'a list" where
  "insert_by lt x [] = [x]"
| "insert_by lt x (y # ys) = (if lt y x then y # insert_by lt x ys else x # y # ys)"

fun sort_Slice :: "('a \<Rightarrow> 'a \<Rightarrow> bool) \<Rightarrow> 'a list \<Rightarrow> 'a list" where
  "sort_Slice lt [] = []"
| "sort_Slice lt (x # xs) = insert_by lt x (sort_Slice lt xs)"

text \<open>\<open>for _, addr := range pingableHostsSorted { fmt.Println(addr) }\<close>\<close>

fun Println_loop :: "IP list \<Rightarrow> 'w process \<Rightarrow> 'w process" where
  "Println_loop [] s = s"
| "Println_loop (addr # rest) s = Println_loop rest (s\<lparr>stdout := stdout s @ [addr]\<rparr>)"

text \<open>
  Lines 97 to 111 of \<open>main\<close>: the grouping and the harvest, with the progress messages on
  standard error (colours left out).
\<close>

definition harvest ::
  "'w go_ping \<Rightarrow> string list \<Rightarrow> ArpCache \<Rightarrow> int \<Rightarrow> int \<Rightarrow> 'w process \<Rightarrow> ('w, string list) result"
where
  "harvest lib ks arpCache numAddresses timeout s =
     (let s1 = Fprintf_stderr ''Parsing ARP cache ... '' s;
          interfaces = group arpCache;
          s2 = Fprintf_stderr (''success'' @ [CHR 0x0A]) s1;
          s3 = Fprintf_stderr ''Pinging IP addresses ... '' s2
      in case interfaces_loop lib interfaces numAddresses timeout ks [] s3 of
           Inl a \<Rightarrow> Inl a
         | Inr (pingableHosts, s4) \<Rightarrow>
             Inr (pingableHosts, Fprintf_stderr (''success'' @ [CHR 0x0A, CHR 0x0A]) s4))"

text \<open>
  Lines 113 to 126 of \<open>main\<close>: every harvested string goes through \<open>net.ParseIP\<close> (whose
  result is not checked), the parsed addresses are sorted and printed.
\<close>

definition report :: "(string \<Rightarrow> IP) \<Rightarrow> string list \<Rightarrow> 'w process \<Rightarrow> 'w process" where
  "report ParseIP pingableHosts s =
     (let pingableHostsSorted =
            sort_Slice (\<lambda>a b. bytes_Compare a b < 0) (map ParseIP pingableHosts);
          s1 = Println_loop pingableHostsSorted s
      in Fprintf_stderr [CHR 0x0A] s1)"

text \<open>
  \<open>main\<close> from the parsed ARP cache on (the flags, the password prompt, the download and
  the XML decoding come before and are not modelled; nor is the closing summary line,
  which prints the elapsed time).
\<close>

definition main ::
  "'w go_ping \<Rightarrow> (string \<Rightarrow> IP) \<Rightarrow> string list \<Rightarrow> ArpCache \<Rightarrow> int \<Rightarrow> int \<Rightarrow> 'w process \<Rightarrow>
     ('w, unit) result"
where
  "main lib ParseIP ks arpCache numAddresses timeout s =
     (case harvest lib ks arpCache numAddresses timeout s of
        Inl a \<Rightarrow> Inl a
      | Inr (pingableHosts, s') \<Rightarrow> Inr ((), report ParseIP pingableHosts s'))"

section \<open>net.ParseIP on dotted decimal text\<close>

text \<open>
  \<open>net.ParseIP\<close> belongs to the Go library and is a parameter of \<open>main\<close> above.  The
  examples need it on concrete text, so this section follows the library (Go 1.19,
  net/ip.go and net/parse.go) for text without a colon; the parser for text with a colon
  (IPv6) stays a parameter.
\<close>

definition is_digit :: "char \<Rightarrow> bool" where
  "is_digit c \<longleftrightarrow> (48::nat) \<le> of_char c \<and> (of_char c :: nat) \<le> 57"

text \<open>
  \<open>dtoi\<close>: decimal to integer; returns the number, the characters consumed and success.
  A number of \<open>0xFFFFFF\<close> or more is a failure.
\<close>

fun dtoi_loop :: "string \<Rightarrow> nat \<Rightarrow> nat \<Rightarrow> nat \<times> nat \<times> bool" where
  "dtoi_loop [] n i = (if i = 0 then (0, 0, False) else (n, i, True))"
| "dtoi_loop (c # cs) n i =
     (if is_digit c then
        (let n' = n * 10 + (of_char c - 48) in
         if n' \<ge> 0xFFFFFF then (0xFFFFFF, i, False) else dtoi_loop cs n' (i + 1))
      else if i = 0 then (0, 0, False) else (n, i, True))"

definition dtoi :: "string \<Rightarrow> nat \<times> nat \<times> bool" where
  "dtoi s = dtoi_loop s 0 0"

text \<open>
  \<open>parseIPv4\<close>: four decimal fields of at most 255, separated by dots, no leading zero
  in a field of several digits, nothing after the fourth.  The first argument counts the
  fields still to read, the second is the loop index.
\<close>

fun parseIPv4_loop :: "nat \<Rightarrow> nat \<Rightarrow> string \<Rightarrow> byte list \<Rightarrow> (byte list \<times> string) option" where
  "parseIPv4_loop 0 i s p = Some (p, s)"
| "parseIPv4_loop (Suc k) i s p =
     (if s = [] then None
      else if i > 0 \<and> hd s \<noteq> CHR ''.'' then None
      else
        (let s1 = (if i > 0 then tl s else s) in
         case dtoi s1 of
           (n, c, ok) \<Rightarrow>
             if \<not> ok \<or> n > 0xFF then None
             else if c > 1 \<and> hd s1 = CHR ''0'' then None
             else parseIPv4_loop k (i + 1) (drop c s1) (p @ [of_nat n])))"

text \<open>
  \<open>net.IPv4(a, b, c, d)\<close>: the 16-byte form, behind the prefix of an IPv4-mapped address.
  In \<open>parseIPv4\<close> the loop has stored exactly four bytes when it comes to an end.
\<close>

definition v4InV6Prefix :: "byte list" where
  "v4InV6Prefix = [0, 0, 0, 0, 0, 0, 0, 0, 0, 0, 0xff, 0xff]"

definition IPv4 :: "byte \<Rightarrow> byte \<Rightarrow> byte \<Rightarrow> byte \<Rightarrow> IP" where
  "IPv4 a b c d = v4InV6Prefix @ [a, b, c, d]"

definition parseIPv4 :: "string \<Rightarrow> IP" where
  "parseIPv4 s =
     (case parseIPv4_loop (Suc (Suc (Suc (Suc 0)))) 0 s [] of
        None \<Rightarrow> []
      | Some (p, rest) \<Rightarrow>
          if rest \<noteq> [] then [] else IPv4 (p ! 0) (p ! 1) (p ! 2) (p ! 3))"

text \<open>
  \<open>net.ParseIP\<close>: the first dot or colon of the text decides between the two parsers;
  text with neither is not an address (nil).
\<close>

fun ParseIP_scan :: "(string \<Rightarrow> IP) \<Rightarrow> string \<Rightarrow> string \<Rightarrow> IP" where
  "ParseIP_scan parseIPv6 s [] = []"
| "ParseIP_scan parseIPv6 s (c # cs) =
     (if c = CHR ''.'' then parseIPv4 s
      else if c = CHR '':'' then parseIPv6 s
      else ParseIP_scan parseIPv6 s cs)"

definition net_ParseIP :: "(string \<Rightarrow> IP) \<Rightarrow> string \<Rightarrow> IP" where
  "net_ParseIP parseIPv6 s = ParseIP_scan parseIPv6 s s"

section \<open>Notions used by the statements\<close>

text \<open>A probe was answered: the library delivered statistics with \<open>PacketLoss == 0\<close>.\<close>

definition answered :: "ping_result \<Rightarrow> bool" where
  "answered r = (case r of Run_ok stats \<Rightarrow> PacketLoss stats = 0 | _ \<Rightarrow> False)"

text \<open>
  How a failing answer of the library ends the process: the abort and the text it leaves
  on standard error (\<open>log.Fatalf\<close> for \<open>pinger.Run\<close>, the panic for \<open>ping.NewPinger\<close>).
\<close>

definition aborted_by :: "ping_result \<Rightarrow> abort \<Rightarrow> string \<Rightarrow> bool" where
  "aborted_by r e msg =
     (case r of
        Run_err \<Rightarrow> e = os_Exit 1 \<and> msg = sudo_msg
      | NewPinger_err m \<Rightarrow> e = panic m \<and> msg = ''panic: '' @ m
      | Run_ok stats \<Rightarrow> False)"

text \<open>What a computation returned, if it returned.\<close>

fun returned :: "('w, 'a) result \<Rightarrow> 'a option" where
  "returned (Inl a) = None"
| "returned (Inr (x, s)) = Some x"

text \<open>The candidates that \<open>getPingableAddresses\<close> does not skip.\<close>

definition candidates :: "string list \<Rightarrow> string list" where
  "candidates addrs = filter (\<lambda>a. \<not> HasPrefix a ''0'') addrs"

text \<open>Worlds for the examples: nothing changes, and the library answers by the address alone.\<close>

definition answers :: "(string \<Rightarrow> ping_result) \<Rightarrow> unit go_ping" where
  "answers f = (\<lambda>addr d w. (f addr, w))"

definition up :: ping_result where
  "up = Run_ok \<lparr>PacketLoss = 0\<rparr>"

definition down :: ping_result where
  "down = Run_ok \<lparr>PacketLoss = 100\<rparr>"

text \<open>The library that gives every address the same answer.\<close>

definition always :: "ping_result \<Rightarrow> unit go_ping" where
  "always r addr d w = (r, w)"

text \<open>Stands for the IPv6 parser in examples that hold no text with a colon.\<close>

definition no_IPv6 :: "string \<Rightarrow> IP" where
  "no_IPv6 s = []"

definition entry :: "string \<Rightarrow> string \<Rightarrow> Interface" where
  "entry n a = \<lparr>Name = n, Address = a\<rparr>"

section \<open>One call of pingAddr\<close>

lemma pingAddr_Inr:
  "pingAddr lib addr timeout s = Inr (stats, s') \<Longrightarrow>
     pings s' = pings s @ [(addr, Run_ok stats)] \<and> stdout s' = stdout s \<and> stderr s' = stderr s"
  by (auto simp: pingAddr_def Let_def split: prod.splits ping_result.splits)

lemma pingAddr_Inl:
  "pingAddr lib addr timeout s = Inl (e, s') \<Longrightarrow>
     \<exists>r msg. pings s' = pings s @ [(addr, r)] \<and> stdout s' = stdout s \<and>
       stderr s' = stderr s @ [msg] \<and> aborted_by r e msg"
  by (auto simp: pingAddr_def Let_def Fprintf_stderr_def aborted_by_def
      split: prod.splits ping_result.splits)

lemma aborted_by_status: "aborted_by r e msg \<Longrightarrow> exit_status e \<noteq> 0 \<and> \<not> answered r"
  by (auto simp: aborted_by_def answered_def split: ping_result.splits)

lemma probed_append [simp]: "pings s' = pings s @ tr \<Longrightarrow> probed s s' = tr"
  by (simp add: probed_def)

section \<open>The loop of getPingableAddresses\<close>

text \<open>One turn of the loop: skip, abort in the probe, break, or go on.\<close>

lemma addrs_loop_Cons_cases [case_names skip abort stop continue]:
  obtains
    (skip) "HasPrefix addr ''0''"
      "addrs_loop lib n t (addr # rest) acc s = addrs_loop lib n t rest acc s"
  | (abort) e s' where "\<not> HasPrefix addr ''0''" "pingAddr lib addr t s = Inl (e, s')"
      "addrs_loop lib n t (addr # rest) acc s = Inl (e, s')"
  | (stop) stats s' where "\<not> HasPrefix addr ''0''" "pingAddr lib addr t s = Inr (stats, s')"
      "int (length (if PacketLoss stats = 0 then acc @ [addr] else acc)) = n"
      "addrs_loop lib n t (addr # rest) acc s =
         Inr (if PacketLoss stats = 0 then acc @ [addr] else acc, s')"
  | (continue) stats s' where "\<not> HasPrefix addr ''0''" "pingAddr lib addr t s = Inr (stats, s')"
      "int (length (if PacketLoss stats = 0 then acc @ [addr] else acc)) \<noteq> n"
      "addrs_loop lib n t (addr # rest) acc s =
         addrs_loop lib n t rest (if PacketLoss stats = 0 then acc @ [addr] else acc) s'"
proof (cases "HasPrefix addr ''0''")
  case True
  then show ?thesis using skip by simp
next
  case False
  show ?thesis
  proof (cases "pingAddr lib addr t s")
    case (Inl a)
    then show ?thesis using False abort[of "fst a" "snd a"] by simp
  next
    case (Inr b)
    then show ?thesis using False stop[of "fst b" "snd b"] continue[of "fst b" "snd b"]
      by (cases b) (simp add: Let_def del: of_nat_eq_iff, blast)
  qed
qed

lemma addrs_loop_stdout:
  "stdout (final (addrs_loop lib n t addrs acc s)) = stdout s"
proof (induction addrs arbitrary: acc s)
  case Nil
  then show ?case by simp
next
  case (Cons addr rest)
  show ?case
  proof (cases rule: addrs_loop_Cons_cases[of addr lib n t rest acc s])
    case skip
    then show ?thesis using Cons.IH[of acc s] by simp
  next
    case (abort e s1)
    then show ?thesis using pingAddr_Inl[of lib addr t s e s1] by auto
  next
    case (stop stats s1)
    then show ?thesis using pingAddr_Inr[of lib addr t s stats s1] by auto
  next
    case (continue stats s1)
    then show ?thesis
      using pingAddr_Inr[of lib addr t s stats s1]
        Cons.IH[of "if PacketLoss stats = 0 then acc @ [addr] else acc" s1]
      by auto
  qed
qed

text \<open>A run that returns: the result is the accumulator followed by the answered probes.\<close>

lemma addrs_loop_Inr:
  "addrs_loop lib n t addrs acc s = Inr (res, s') \<Longrightarrow>
     \<exists>tr. pings s' = pings s @ tr \<and> res = acc @ map fst (filter (\<lambda>x. answered (snd x)) tr) \<and>
          (\<forall>x \<in> set tr. \<exists>stats. snd x = Run_ok stats) \<and> stderr s' = stderr s"
proof (induction addrs arbitrary: acc s)
  case Nil
  then show ?case by simp
next
  case (Cons addr rest)
  show ?case
  proof (cases rule: addrs_loop_Cons_cases[of addr lib n t rest acc s])
    case skip
    then show ?thesis using Cons.prems Cons.IH[of acc s] by simp
  next
    case (abort e s1)
    then show ?thesis using Cons.prems pingAddr_Inl[of lib addr t s e s1] by auto
  next
    case (stop stats s1)
    then show ?thesis using Cons.prems pingAddr_Inr[of lib addr t s stats s1] by (auto simp: answered_def)
  next
    case (continue stats s1)
    then show ?thesis
      using Cons.prems pingAddr_Inr[of lib addr t s stats s1]
        Cons.IH[of "if PacketLoss stats = 0 then acc @ [addr] else acc" s1]
      by (auto simp: answered_def)
  qed
qed

text \<open>A run that aborts: the last probe failed, the ones before it did not.\<close>

lemma addrs_loop_Inl:
  "addrs_loop lib n t addrs acc s = Inl (e, s') \<Longrightarrow>
     \<exists>tr a r msg. pings s' = pings s @ tr @ [(a, r)] \<and> (\<forall>x \<in> set tr. \<exists>stats. snd x = Run_ok stats) \<and>
        stderr s' = stderr s @ [msg] \<and> aborted_by r e msg"
proof (induction addrs arbitrary: acc s)
  case Nil
  then show ?case by simp
next
  case (Cons addr rest)
  show ?case
  proof (cases rule: addrs_loop_Cons_cases[of addr lib n t rest acc s])
    case skip
    then show ?thesis using Cons.prems Cons.IH[of acc s] by simp
  next
    case (abort e1 s1)
    with Cons.prems have "e1 = e" "s1 = s'" by simp_all
    with abort pingAddr_Inl[of lib addr t s e s'] obtain r msg where
      "pings s' = pings s @ [] @ [(addr, r)]" "stderr s' = stderr s @ [msg]" "aborted_by r e msg"
      by auto
    then show ?thesis by (intro exI[of _ "[]"] exI[of _ addr] exI[of _ r] exI[of _ msg]) simp
  next
    case (stop stats s1)
    then show ?thesis using Cons.prems by simp
  next
    case (continue stats s1)
    let ?acc = "if PacketLoss stats = 0 then acc @ [addr] else acc"
    from continue Cons.prems have "addrs_loop lib n t rest ?acc s1 = Inl (e, s')" by simp
    from Cons.IH[OF this] obtain tr a r msg where
      "pings s' = pings s1 @ tr @ [(a, r)]" "\<forall>x \<in> set tr. \<exists>stats. snd x = Run_ok stats"
      "stderr s' = stderr s1 @ [msg]" "aborted_by r e msg" by blast
    with continue show ?thesis using pingAddr_Inr[of lib addr t s stats s1]
      by (intro exI[of _ "(addr, Run_ok stats) # tr"] exI[of _ a] exI[of _ r] exI[of _ msg]) simp
  qed
qed

text \<open>The result extends the accumulator by a subsequence of the candidates.\<close>

lemma addrs_loop_subseq:
  "addrs_loop lib n t addrs acc s = Inr (res, s') \<Longrightarrow>
     \<exists>ys. res = acc @ ys \<and> subseq ys (candidates addrs)"
proof (induction addrs arbitrary: acc s)
  case Nil
  then show ?case by (simp add: candidates_def)
next
  case (Cons addr rest)
  show ?case
  proof (cases rule: addrs_loop_Cons_cases[of addr lib n t rest acc s])
    case skip
    then show ?thesis using Cons.prems Cons.IH[of acc s] by (simp add: candidates_def)
  next
    case (abort e s1)
    then show ?thesis using Cons.prems pingAddr_Inl[of lib addr t s e s1] by auto
  next
    case (stop stats s1)
    then show ?thesis using Cons.prems pingAddr_Inr[of lib addr t s stats s1] by (auto simp: candidates_def)
  next
    case (continue stats s1)
    then show ?thesis
      using Cons.prems pingAddr_Inr[of lib addr t s stats s1]
        Cons.IH[of "if PacketLoss stats = 0 then acc @ [addr] else acc" s1]
      by (auto simp: candidates_def)
  qed
qed

text \<open>Below the quota at the start, the loop never goes beyond it.\<close>

lemma addrs_loop_quota:
  "int (length acc) < n \<Longrightarrow> addrs_loop lib n t addrs acc s = Inr (res, s') \<Longrightarrow>
     int (length res) \<le> n"
proof (induction addrs arbitrary: acc s)
  case Nil
  then show ?case by simp
next
  case (Cons addr rest)
  show ?case
  proof (cases rule: addrs_loop_Cons_cases[of addr lib n t rest acc s])
    case skip
    then show ?thesis using Cons.prems Cons.IH[of acc s] by simp
  next
    case (abort e s1)
    then show ?thesis using Cons.prems pingAddr_Inl[of lib addr t s e s1] by auto
  next
    case (stop stats s1)
    then show ?thesis using Cons.prems pingAddr_Inr[of lib addr t s stats s1] by auto
  next
    case (continue stats s1)
    then show ?thesis
      using Cons.prems pingAddr_Inr[of lib addr t s stats s1]
        Cons.IH[of "if PacketLoss stats = 0 then acc @ [addr] else acc" s1]
      by (cases "PacketLoss stats = 0") auto
  qed
qed

text \<open>A negative quota is never met: every candidate is probed.\<close>

lemma addrs_loop_negative:
  "n < 0 \<Longrightarrow> addrs_loop lib n t addrs acc s = Inr (res, s') \<Longrightarrow>
     \<exists>tr. pings s' = pings s @ tr \<and> map fst tr = candidates addrs \<and>
          res = acc @ map fst (filter (\<lambda>x. answered (snd x)) tr)"
proof (induction addrs arbitrary: acc s)
  case Nil
  then show ?case by (simp add: candidates_def)
next
  case (Cons addr rest)
  show ?case
  proof (cases rule: addrs_loop_Cons_cases[of addr lib n t rest acc s])
    case skip
    then show ?thesis using Cons.prems Cons.IH[of acc s] by (simp add: candidates_def)
  next
    case (abort e s1)
    then show ?thesis using Cons.prems pingAddr_Inl[of lib addr t s e s1] by auto
  next
    case (stop stats s1)
    then show ?thesis using Cons.prems pingAddr_Inr[of lib addr t s stats s1] by (auto simp: answered_def candidates_def)
  next
    case (continue stats s1)
    then show ?thesis
      using Cons.prems pingAddr_Inr[of lib addr t s stats s1]
        Cons.IH[of "if PacketLoss stats = 0 then acc @ [addr] else acc" s1]
      by (auto simp: answered_def candidates_def)
  qed
qed

text \<open>The probes of a run are the candidates among the first \<open>k\<close> addresses, for some \<open>k\<close>.\<close>

lemma addrs_loop_probed:
  "\<exists>k tr. k \<le> length addrs \<and> pings (final (addrs_loop lib n t addrs acc s)) = pings s @ tr \<and>
      map fst tr = candidates (take k addrs)"
proof (induction addrs arbitrary: acc s)
  case Nil
  then show ?case by (simp add: candidates_def)
next
  case (Cons addr rest)
  show ?case
  proof (cases rule: addrs_loop_Cons_cases[of addr lib n t rest acc s])
    case skip
    from Cons.IH[of acc s] obtain k tr where
      "k \<le> length rest" "pings (final (addrs_loop lib n t rest acc s)) = pings s @ tr"
      "map fst tr = candidates (take k rest)" by blast
    with skip show ?thesis
      by (intro exI[of _ "Suc k"] exI[of _ tr]) (simp add: candidates_def)
  next
    case (abort e s1)
    then show ?thesis using pingAddr_Inl[of lib addr t s e s1]
      by (intro exI[of _ "Suc 0"]) (auto simp: candidates_def)
  next
    case (stop stats s1)
    then show ?thesis using pingAddr_Inr[of lib addr t s stats s1]
      by (intro exI[of _ "Suc 0"]) (auto simp: candidates_def)
  next
    case (continue stats s1)
    let ?acc = "if PacketLoss stats = 0 then acc @ [addr] else acc"
    from Cons.IH[of ?acc s1] obtain k tr where
      "k \<le> length rest" "pings (final (addrs_loop lib n t rest ?acc s1)) = pings s1 @ tr"
      "map fst tr = candidates (take k rest)" by blast
    with continue show ?thesis
      using pingAddr_Inr[of lib addr t s stats s1]
      by (intro exI[of _ "Suc k"] exI[of _ "(addr, Run_ok stats) # tr"]) (simp add: candidates_def)
  qed
qed

text \<open>
  A run that starts below the quota and ends on it stopped at the address that filled
  the quota: the probes are the candidates up to that address.
\<close>

lemma addrs_loop_early_exit:
  "int (length acc) < n \<Longrightarrow> addrs_loop lib n t addrs acc s = Inr (res, s') \<Longrightarrow>
   int (length res) = n \<Longrightarrow>
     \<exists>pre post tr stats. addrs = pre @ last res # post \<and> \<not> HasPrefix (last res) ''0'' \<and>
        pings s' = pings s @ tr @ [(last res, Run_ok stats)] \<and> PacketLoss stats = 0 \<and>
        map fst tr = candidates pre"
proof (induction addrs arbitrary: acc s)
  case Nil
  then show ?case by simp
next
  case (Cons addr rest)
  show ?case
  proof (cases rule: addrs_loop_Cons_cases[of addr lib n t rest acc s])
    case skip
    with Cons.prems have "addrs_loop lib n t rest acc s = Inr (res, s')" by simp
    from Cons.IH[OF Cons.prems(1) this Cons.prems(3)] obtain pre post tr stats where
      "rest = pre @ last res # post" "\<not> HasPrefix (last res) ''0''"
      "pings s' = pings s @ tr @ [(last res, Run_ok stats)]" "PacketLoss stats = 0"
      "map fst tr = candidates pre" by blast
    with skip show ?thesis
      by (intro exI[of _ "addr # pre"] exI[of _ post] exI[of _ tr] exI[of _ stats])
        (simp add: candidates_def)
  next
    case (abort e s1)
    then show ?thesis using Cons.prems by simp
  next
    case (stop stats s1)
    with Cons.prems have "PacketLoss stats = 0" "res = acc @ [addr]" "s' = s1"
      by (auto split: if_splits)
    with stop show ?thesis using pingAddr_Inr[of lib addr t s stats s1]
      by (intro exI[of _ "[]"] exI[of _ rest] exI[of _ "[]"] exI[of _ stats])
        (simp add: candidates_def)
  next
    case (continue stats s1)
    let ?acc = "if PacketLoss stats = 0 then acc @ [addr] else acc"
    from continue Cons.prems have run: "addrs_loop lib n t rest ?acc s1 = Inr (res, s')" by simp
    from continue(3) Cons.prems(1) have "int (length ?acc) < n" by (auto split: if_splits)
    from Cons.IH[OF this run Cons.prems(3)] obtain pre post tr st where
      "rest = pre @ last res # post" "\<not> HasPrefix (last res) ''0''"
      "pings s' = pings s1 @ tr @ [(last res, Run_ok st)]" "PacketLoss st = 0"
      "map fst tr = candidates pre" by blast
    with continue show ?thesis using pingAddr_Inr[of lib addr t s stats s1]
      by (intro exI[of _ "addr # pre"] exI[of _ post] exI[of _ "(addr, Run_ok stats) # tr"]
          exI[of _ st]) (simp add: candidates_def)
  qed
qed


text \<open>
  A run that starts below the quota makes its last probe while still below it, whether it
  returns or aborts: the accumulator plus the probes answered before the last one stay
  below the quota.
\<close>

lemma addrs_loop_before_last:
  "int (length acc) < n \<Longrightarrow>
     \<exists>tr. pings (final (addrs_loop lib n t addrs acc s)) = pings s @ tr \<and>
       int (length acc) + int (length (filter (\<lambda>x. answered (snd x)) (butlast tr))) < n"
proof (induction addrs arbitrary: acc s)
  case Nil
  then show ?case by simp
next
  case (Cons addr rest)
  show ?case
  proof (cases rule: addrs_loop_Cons_cases[of addr lib n t rest acc s])
    case skip
    then show ?thesis using Cons.IH[OF Cons.prems, of s] by simp
  next
    case (abort e s1)
    with pingAddr_Inl[of lib addr t s e s1] obtain r where "pings s1 = pings s @ [(addr, r)]"
      by blast
    with abort Cons.prems show ?thesis by (intro exI[of _ "[(addr, r)]"]) simp
  next
    case (stop stats s1)
    with pingAddr_Inr[of lib addr t s stats s1] Cons.prems show ?thesis
      by (intro exI[of _ "[(addr, Run_ok stats)]"]) simp
  next
    case (continue stats s1)
    let ?acc = "if PacketLoss stats = 0 then acc @ [addr] else acc"
    from continue(3) Cons.prems have "int (length ?acc) < n" by (auto split: if_splits)
    from Cons.IH[OF this, of s1] obtain tr where
      tr: "pings (final (addrs_loop lib n t rest ?acc s1)) = pings s1 @ tr"
        "int (length ?acc) + int (length (filter (\<lambda>x. answered (snd x)) (butlast tr))) < n"
      by blast
    have "int (length acc) +
        int (length (filter (\<lambda>x. answered (snd x)) (butlast ((addr, Run_ok stats) # tr)))) < n"
      using tr(2) Cons.prems by (cases "tr = []") (auto simp: answered_def split: if_splits)
    with continue tr(1) pingAddr_Inr[of lib addr t s stats s1] show ?thesis
      by (intro exI[of _ "(addr, Run_ok stats) # tr"]) simp
  qed
qed

section \<open>Properties of getPingableAddresses\<close>

lemmas run_defs = getPingableAddresses_def pingAddr_def answers_def always_def up_def down_def
  HasPrefix_def start_def Let_def Duration_ms_def probed_def candidates_def answered_def

text \<open>
  What holds of every call that returns: the result is a subsequence of the addresses
  given, has no more elements than there are candidates, and for a quota of 1 or more has
  no more elements than the quota.
\<close>

lemma getPingableAddresses_bound:
  assumes "getPingableAddresses lib addrs numAddrs timeout s = Inr (res, s')"
  shows "subseq res addrs" and "length res \<le> length (candidates addrs)"
    and "1 \<le> numAddrs \<Longrightarrow> int (length res) \<le> numAddrs"
proof -
  from assms addrs_loop_subseq[of lib numAddrs timeout addrs "[]" s res s']
  have sub: "subseq res (candidates addrs)" by (simp add: getPingableAddresses_def)
  then show "length res \<le> length (candidates addrs)" by (rule list_emb_length)
  have "subseq (candidates addrs) addrs" by (simp add: candidates_def)
  with sub show "subseq res addrs" by (rule subseq_order.trans)
  show "int (length res) \<le> numAddrs" if "1 \<le> numAddrs"
    using that assms addrs_loop_quota[of "[]" numAddrs lib timeout addrs s res s']
    by (simp add: getPingableAddresses_def)
qed

text \<open>
  Claim C1 says that with a quota of 0 nothing is probed and nothing is returned.  The
  code tests the quota only after a probe: with the quota 0 and two addresses that both
  answer, it probes both and returns both.
\<close>

theorem quota_zero_probes:
  "getPingableAddresses (always up) [''10.0.0.1'', ''10.0.0.2''] 0 250 (start ()) =
     Inr ([''10.0.0.1'', ''10.0.0.2''],
          \<lparr>world = (), pings = [(''10.0.0.1'', up), (''10.0.0.2'', up)], stdout = [], stderr = []\<rparr>)"
  by (simp add: run_defs)

text \<open>
  Claim C2 bounds the length of the result by the minimum of the quota and the number of
  candidates, for every quota from 0 on.  With the quota 0 and one address that answers,
  the code returns that address: one element, where the bound is 0.  (For a quota of 1 or
  more the bound holds, and the result is always a subsequence of the input: lemma
  \<open>getPingableAddresses_bound\<close>.)
\<close>

theorem quota_zero_exceeds:
  "returned (getPingableAddresses (always up) [''192.168.1.5''] 0 250 (start ())) =
     Some [''192.168.1.5''] \<and>
   min 0 (int (length (candidates [''192.168.1.5'']))) = 0"
  by (simp add: run_defs)

text \<open>
  Claim C3, early exit, for a quota of 1 or more.  In every call, returning or aborting,
  fewer probes than the quota were answered before the last probe: once the quota is
  reached there is no further probe.  A call that returns never returns more than the
  quota, and when the result has reached the quota the addresses split into a part
  before the address that filled the quota, that address, and a rest: the probes of the
  call are the candidates of the first part and that address, the last probe is the one
  that was answered, and nothing of the rest was probed.
\<close>

theorem early_exit:
  assumes "1 \<le> numAddrs"
  shows "int (length (filter (\<lambda>x. answered (snd x))
            (butlast (probed s (final (getPingableAddresses lib addrs numAddrs timeout s)))))) < numAddrs \<and>
    (\<forall>res s'. getPingableAddresses lib addrs numAddrs timeout s = Inr (res, s') \<longrightarrow>
       int (length res) \<le> numAddrs \<and>
       (int (length res) = numAddrs \<longrightarrow>
          (\<exists>pre post. addrs = pre @ last res # post \<and>
             map fst (probed s s') = candidates pre @ [last res] \<and>
             answered (snd (last (probed s s'))))))"
proof (intro conjI allI impI)
  from assms have "int (length ([]::string list)) < numAddrs" by simp
  from addrs_loop_before_last[OF this, of lib timeout addrs s]
  show "int (length (filter (\<lambda>x. answered (snd x))
            (butlast (probed s (final (getPingableAddresses lib addrs numAddrs timeout s)))))) < numAddrs"
    by (auto simp: getPingableAddresses_def)
next
  fix res s'
  assume run: "getPingableAddresses lib addrs numAddrs timeout s = Inr (res, s')"
  with assms show "int (length res) \<le> numAddrs"
    by (rule getPingableAddresses_bound(3)[rotated])
next
  fix res s'
  assume run: "getPingableAddresses lib addrs numAddrs timeout s = Inr (res, s')"
    and full: "int (length res) = numAddrs"
  from assms run have "int (length ([]::string list)) < numAddrs"
    "addrs_loop lib numAddrs timeout addrs [] s = Inr (res, s')"
    by (simp_all add: getPingableAddresses_def)
  from addrs_loop_early_exit[OF this full] obtain pre post tr stats where
    "addrs = pre @ last res # post"
    "pings s' = pings s @ tr @ [(last res, Run_ok stats)]" "PacketLoss stats = 0"
    "map fst tr = candidates pre" by blast
  then show "\<exists>pre post. addrs = pre @ last res # post \<and>
        map fst (probed s s') = candidates pre @ [last res] \<and>
        answered (snd (last (probed s s')))"
    by (intro exI[of _ pre] exI[of _ post]) (simp add: answered_def)
qed

theorem early_exit_witness:
  "(1::int) \<le> 2 \<and>
   getPingableAddresses (always up) [''10.0.0.1'', ''0.0.0.2'', ''10.0.0.3'', ''10.0.0.4''] 2 250 (start ()) =
     Inr ([''10.0.0.1'', ''10.0.0.3''],
          \<lparr>world = (), pings = [(''10.0.0.1'', up), (''10.0.0.3'', up)], stdout = [], stderr = []\<rparr>) \<and>
   (\<exists>pre post. [''10.0.0.1'', ''0.0.0.2'', ''10.0.0.3'', ''10.0.0.4''] = pre @ ''10.0.0.3'' # post \<and>
      [''10.0.0.1'', ''10.0.0.3''] = candidates pre @ [''10.0.0.3''])"
proof -
  let ?s' = "\<lparr>world = (), pings = [(''10.0.0.1'', up), (''10.0.0.3'', up)], stdout = [], stderr = []\<rparr>"
  have run: "getPingableAddresses (always up) [''10.0.0.1'', ''0.0.0.2'', ''10.0.0.3'', ''10.0.0.4''] 2 250 (start ()) =
     Inr ([''10.0.0.1'', ''10.0.0.3''], ?s')"
    by (simp add: run_defs always_def)
  have "map fst (probed (start ()) ?s') = [''10.0.0.1'', ''10.0.0.3'']"
    by (simp add: probed_def start_def)
  with early_exit[of 2 "start ()" "always up" "[''10.0.0.1'', ''0.0.0.2'', ''10.0.0.3'', ''10.0.0.4'']" 250]
    run show ?thesis by simp blast
qed

text \<open>
  Claim C4: whatever the addresses, the quota and the answers, and whether the call
  returns or aborts, no address that begins with 0 is among the probes of the call, and
  none is in the result.
\<close>

theorem placeholder_never_probed:
  "(\<forall>x \<in> set (probed s (final (getPingableAddresses lib addrs numAddrs timeout s))).
       \<not> HasPrefix (fst x) ''0'') \<and>
   (case returned (getPingableAddresses lib addrs numAddrs timeout s) of
      None \<Rightarrow> True
    | Some res \<Rightarrow> \<forall>a \<in> set res. \<not> HasPrefix a ''0'')"
proof
  let ?r = "getPingableAddresses lib addrs numAddrs timeout s"
  from addrs_loop_probed[of addrs lib numAddrs timeout "[]" s] obtain k tr where
    tr: "pings (final ?r) = pings s @ tr" "map fst tr = candidates (take k addrs)"
    unfolding getPingableAddresses_def by blast
  have "fst x \<in> set (candidates (take k addrs))" if "x \<in> set tr" for x
    using that tr(2) by (metis image_eqI list.set_map)
  then show "\<forall>x \<in> set (probed s (final ?r)). \<not> HasPrefix (fst x) ''0''"
    using tr(1) by (auto simp: candidates_def)
  show "case returned ?r of None \<Rightarrow> True | Some res \<Rightarrow> \<forall>a \<in> set res. \<not> HasPrefix a ''0''"
  proof (cases ?r)
    case (Inl a)
    then show ?thesis by simp
  next
    case (Inr b)
    obtain res s' where b: "b = (res, s')" by (cases b)
    from Inr b addrs_loop_subseq[of lib numAddrs timeout addrs "[]" s res s']
    have "subseq res (candidates addrs)" by (simp add: getPingableAddresses_def)
    then have "a \<in> set (candidates addrs)" if "a \<in> set res" for a
      using that by (auto elim: list_emb_set)
    with Inr b show ?thesis by (auto simp: candidates_def)
  qed
qed

theorem placeholder_never_probed_witness:
  "probed (start ()) (final (getPingableAddresses (answers (\<lambda>a. up)) [''0.0.0.0'', ''10.0.0.7''] 2 250 (start ())))
     = [(''10.0.0.7'', up)] \<and>
   returned (getPingableAddresses (answers (\<lambda>a. up)) [''0.0.0.0'', ''10.0.0.7''] 2 250 (start ()))
     = Some [''10.0.0.7''] \<and>
   HasPrefix ''0.0.0.0'' ''0'' \<and> \<not> HasPrefix ''10.0.0.7'' ''0''"
  using placeholder_never_probed[of "start ()" "answers (\<lambda>a. up)" "[''0.0.0.0'', ''10.0.0.7'']" 2 250]
  by (simp add: run_defs)

text \<open>
  Claim C10: with a negative quota, a call that returns has probed every candidate, in
  the order of the input, and returns every address whose probe was answered; the
  length of the result is not bounded by the quota.
\<close>

theorem negative_quota:
  assumes "numAddrs < 0"
    and "getPingableAddresses lib addrs numAddrs timeout s = Inr (res, s')"
  shows "map fst (probed s s') = candidates addrs \<and>
         res = map fst (filter (\<lambda>x. answered (snd x)) (probed s s'))"
  using addrs_loop_negative[of numAddrs lib timeout addrs "[]" s res s'] assms
  by (auto simp: getPingableAddresses_def)

theorem negative_quota_witness:
  "(- 1 :: int) < 0 \<and>
   getPingableAddresses (answers (\<lambda>a. if a = ''10.0.0.2'' then down else up))
       [''10.0.0.1'', ''10.0.0.2'', ''0.0.0.3'', ''10.0.0.4'', ''10.0.0.5''] (- 1) 250 (start ()) =
     Inr ([''10.0.0.1'', ''10.0.0.4'', ''10.0.0.5''],
          \<lparr>world = (),
             pings = [(''10.0.0.1'', up), (''10.0.0.2'', down), (''10.0.0.4'', up), (''10.0.0.5'', up)],
             stdout = [], stderr = []\<rparr>) \<and>
   candidates [''10.0.0.1'', ''10.0.0.2'', ''0.0.0.3'', ''10.0.0.4'', ''10.0.0.5''] =
     [''10.0.0.1'', ''10.0.0.2'', ''10.0.0.4'', ''10.0.0.5'']"
proof -
  let ?s' = "\<lparr>world = (),
             pings = [(''10.0.0.1'', up), (''10.0.0.2'', down), (''10.0.0.4'', up), (''10.0.0.5'', up)],
             stdout = [], stderr = []\<rparr>"
  have run: "getPingableAddresses (answers (\<lambda>a. if a = ''10.0.0.2'' then down else up))
       [''10.0.0.1'', ''10.0.0.2'', ''0.0.0.3'', ''10.0.0.4'', ''10.0.0.5''] (- 1) 250 (start ()) =
     Inr ([''10.0.0.1'', ''10.0.0.4'', ''10.0.0.5''], ?s')"
    by (simp add: run_defs)
  have "map fst (probed (start ()) ?s') = [''10.0.0.1'', ''10.0.0.2'', ''10.0.0.4'', ''10.0.0.5'']"
    by (simp add: probed_def start_def)
  with negative_quota[OF _ run] run show ?thesis by simp
qed

section \<open>Sorting by bytes.Compare\<close>

text \<open>
  \<open>bytes.Compare\<close> is the lexicographic order of byte lists, which is a linear order
  (\<open>HOL-Library.List_Lexorder\<close> over the unsigned order of bytes).
\<close>

lemma bytes_Compare_less: "bytes_Compare a b < 0 \<longleftrightarrow> a < b"
  by (induction a b rule: bytes_Compare.induct) auto

lemma bytes_Compare_le: "bytes_Compare a b \<le> 0 \<longleftrightarrow> a \<le> b"
  by (induction a b rule: bytes_Compare.induct) auto

lemma insert_by_insort: "insert_by (\<lambda>a b. bytes_Compare a b < 0) x ys = insort x ys"
  by (induction ys) (auto simp: bytes_Compare_less)

lemma sort_Slice_sort: "sort_Slice (\<lambda>a b. bytes_Compare a b < 0) xs = sort xs"
  by (induction xs) (simp_all add: insert_by_insort sort_key_def)

lemma sorted_wrt_bytes: "sorted_wrt (\<lambda>a b. bytes_Compare a b \<le> 0) xs \<longleftrightarrow> sorted xs"
  by (simp add: bytes_Compare_le)

lemma sort_Slice_sorted:
  "sorted_wrt (\<lambda>a b. bytes_Compare a b \<le> 0) (sort_Slice (\<lambda>a b. bytes_Compare a b < 0) xs)"
  by (simp add: sorted_wrt_bytes sort_Slice_sort)

lemma mset_insert_by: "mset (insert_by lt x ys) = add_mset x (mset ys)"
  by (induction ys) simp_all

lemma mset_sort_Slice: "mset (sort_Slice lt xs) = mset xs"
  by (induction xs) (simp_all add: mset_insert_by)

text \<open>The sorted arrangement is unique, so any sorting algorithm computes \<open>sort_Slice\<close>.\<close>

lemma sort_Slice_unique:
  assumes "mset ys = mset xs" and "sorted_wrt (\<lambda>a b. bytes_Compare a b \<le> 0) ys"
  shows "sort_Slice (\<lambda>a b. bytes_Compare a b < 0) xs = ys"
  using assms by (simp add: sort_Slice_sort sorted_wrt_bytes properties_for_sort)

text \<open>The nil address is the least: the nil entries of a slice are sorted to its front.\<close>

lemma sort_Slice_nil_first:
  "sort_Slice (\<lambda>a b. bytes_Compare a b < 0) xs =
     replicate (length (filter (\<lambda>a. a = []) xs)) [] @
     sort_Slice (\<lambda>a b. bytes_Compare a b < 0) (filter (\<lambda>a. a \<noteq> []) xs)"
proof (rule sort_Slice_unique)
  let ?nils = "replicate (length (filter (\<lambda>a. a = []) xs)) ([]::byte list)"
  let ?rest = "sort_Slice (\<lambda>a b. bytes_Compare a b < 0) (filter (\<lambda>a. a \<noteq> []) xs)"
  have nils: "?nils = filter (\<lambda>a. a = []) xs" by (induction xs) simp_all
  have "mset (?nils @ ?rest) = mset (filter (\<lambda>a. a = []) xs) + mset (filter (\<lambda>a. a \<noteq> []) xs)"
    by (simp only: nils mset_append mset_sort_Slice)
  also have "\<dots> = mset xs" by simp
  finally show "mset (?nils @ ?rest) = mset xs" .
  have "sorted ?rest" by (simp add: sort_Slice_sort)
  then have "sorted (?nils @ ?rest)" by (simp add: sorted_append)
  then show "sorted_wrt (\<lambda>a b. bytes_Compare a b \<le> 0) (?nils @ ?rest)"
    by (simp only: sorted_wrt_bytes)
qed

section \<open>Grouping\<close>

text \<open>What the grouping loop adds to a map.\<close>

lemma entries_loop_lookup:
  "entries_loop es m k =
     (if k \<in> Name ` set es then Some (index m k @ map Address (filter (\<lambda>e. Name e = k) es))
      else m k)"
proof (induction es arbitrary: m)
  case Nil
  show ?case by simp
next
  case (Cons e es)
  show ?case by (auto simp: Cons.IH index_def filter_empty_conv image_iff)
qed

text \<open>
  Claim C8: the keys of the map built from the entries are the interface names that
  occur in them, and every key holds the addresses of the entries of that interface, in
  the order of the entries and as often as they occur.
\<close>

theorem group_by_interface:
  "dom (group arpCache) = Name ` set (Entries arpCache) \<and>
   (\<forall>k \<in> Name ` set (Entries arpCache).
      group arpCache k = Some (map Address (filter (\<lambda>e. Name e = k) (Entries arpCache))))"
  by (auto simp: group_def entries_loop_lookup index_def dom_def split: if_splits)

theorem group_by_interface_witness:
  "dom (group \<lparr>Entries = [entry ''eth0'' ''10.0.0.1'', entry ''eth1'' ''192.168.1.1'',
       entry ''eth0'' ''10.0.0.2'', entry ''eth0'' ''10.0.0.1'']\<rparr>) = {''eth0'', ''eth1''} \<and>
   group \<lparr>Entries = [entry ''eth0'' ''10.0.0.1'', entry ''eth1'' ''192.168.1.1'',
       entry ''eth0'' ''10.0.0.2'', entry ''eth0'' ''10.0.0.1'']\<rparr> ''eth0'' =
     Some [''10.0.0.1'', ''10.0.0.2'', ''10.0.0.1''] \<and>
   group \<lparr>Entries = [entry ''eth0'' ''10.0.0.1'', entry ''eth1'' ''192.168.1.1'',
       entry ''eth0'' ''10.0.0.2'', entry ''eth0'' ''10.0.0.1'']\<rparr> ''eth1'' =
     Some [''192.168.1.1'']"
  using group_by_interface[of "\<lparr>Entries = [entry ''eth0'' ''10.0.0.1'', entry ''eth1'' ''192.168.1.1'',
       entry ''eth0'' ''10.0.0.2'', entry ''eth0'' ''10.0.0.1'']\<rparr>"]
  by (auto simp: entry_def)


section \<open>The run over the interfaces\<close>

lemma getPingableAddresses_stdout:
  "stdout (final (getPingableAddresses lib addrs n t s)) = stdout s"
  by (simp add: getPingableAddresses_def addrs_loop_stdout)

lemma interfaces_loop_stdout:
  "stdout (final (interfaces_loop lib m n t ks hosts s)) = stdout s"
proof (induction ks arbitrary: hosts s)
  case Nil
  show ?case by simp
next
  case (Cons k ks)
  show ?case
  proof (cases "getPingableAddresses lib (index m k) n t s")
    case (Inl a)
    with getPingableAddresses_stdout[of lib "index m k" n t s] show ?thesis by simp
  next
    case (Inr b)
    obtain found s1 where b: "b = (found, s1)" by (cases b)
    with Inr getPingableAddresses_stdout[of lib "index m k" n t s] have "stdout s1 = stdout s"
      by simp
    with Inr b Cons.IH[of "hosts @ found" s1] show ?thesis by simp
  qed
qed

text \<open>A run over the interfaces that returns: no probe failed, and the hosts are the results
  of the calls of \<open>getPingableAddresses\<close>, one for each key visited, one after the other.\<close>

lemma interfaces_loop_Inr:
  "interfaces_loop lib m n t ks hosts s = Inr (res, s') \<Longrightarrow>
     (\<exists>tr. pings s' = pings s @ tr \<and> (\<forall>x \<in> set tr. \<exists>stats. snd x = Run_ok stats)) \<and>
     stderr s' = stderr s \<and>
     (\<exists>rs. res = hosts @ concat rs \<and>
        list_all2 (\<lambda>k found. \<exists>s1 s2. getPingableAddresses lib (index m k) n t s1 = Inr (found, s2)) ks rs)"
proof (induction ks arbitrary: hosts s)
  case Nil
  then show ?case by simp
next
  case (Cons k ks)
  show ?case
  proof (cases "getPingableAddresses lib (index m k) n t s")
    case (Inl a)
    with Cons.prems show ?thesis by simp
  next
    case (Inr b)
    obtain found s1 where b: "b = (found, s1)" by (cases b)
    with Inr have call: "getPingableAddresses lib (index m k) n t s = Inr (found, s1)" by simp
    with Cons.prems have rest: "interfaces_loop lib m n t ks (hosts @ found) s1 = Inr (res, s')"
      by simp
    from call addrs_loop_Inr[of lib n t "index m k" "[]" s found s1] obtain tr1 where
      tr1: "pings s1 = pings s @ tr1" "\<forall>x \<in> set tr1. \<exists>stats. snd x = Run_ok stats"
        "stderr s1 = stderr s"
      by (auto simp: getPingableAddresses_def)
    from Cons.IH[OF rest] obtain tr2 rs where
      tr2: "pings s' = pings s1 @ tr2" "\<forall>x \<in> set tr2. \<exists>stats. snd x = Run_ok stats"
        "stderr s' = stderr s1" and
      rs: "res = (hosts @ found) @ concat rs"
        "list_all2 (\<lambda>k found. \<exists>s1 s2. getPingableAddresses lib (index m k) n t s1 = Inr (found, s2)) ks rs"
      by blast
    have "\<exists>tr. pings s' = pings s @ tr \<and> (\<forall>x \<in> set tr. \<exists>stats. snd x = Run_ok stats)"
      using tr1 tr2 by (intro exI[of _ "tr1 @ tr2"]) auto
    moreover have "stderr s' = stderr s" using tr1 tr2 by simp
    moreover have "\<exists>rs. res = hosts @ concat rs \<and>
        list_all2 (\<lambda>k found. \<exists>s1 s2. getPingableAddresses lib (index m k) n t s1 = Inr (found, s2)) (k # ks) rs"
      using rs call by (intro exI[of _ "found # rs"]) auto
    ultimately show ?thesis by blast
  qed
qed

text \<open>A run over the interfaces that aborts: the last probe failed, none before it did.\<close>

lemma interfaces_loop_Inl:
  "interfaces_loop lib m n t ks hosts s = Inl (e, s') \<Longrightarrow>
     \<exists>tr a r msg. pings s' = pings s @ tr @ [(a, r)] \<and> (\<forall>x \<in> set tr. \<exists>stats. snd x = Run_ok stats) \<and>
        stderr s' = stderr s @ [msg] \<and> aborted_by r e msg"
proof (induction ks arbitrary: hosts s)
  case Nil
  then show ?case by simp
next
  case (Cons k ks)
  show ?case
  proof (cases "getPingableAddresses lib (index m k) n t s")
    case (Inl a)
    with Cons.prems have "addrs_loop lib n t (index m k) [] s = Inl (e, s')"
      by (simp add: getPingableAddresses_def)
    then show ?thesis by (rule addrs_loop_Inl)
  next
    case (Inr b)
    obtain found s1 where b: "b = (found, s1)" by (cases b)
    with Inr have call: "getPingableAddresses lib (index m k) n t s = Inr (found, s1)" by simp
    with Cons.prems have rest: "interfaces_loop lib m n t ks (hosts @ found) s1 = Inl (e, s')"
      by simp
    from call addrs_loop_Inr[of lib n t "index m k" "[]" s found s1] obtain tr1 where
      tr1: "pings s1 = pings s @ tr1" "\<forall>x \<in> set tr1. \<exists>stats. snd x = Run_ok stats"
        "stderr s1 = stderr s"
      by (auto simp: getPingableAddresses_def)
    from Cons.IH[OF rest] obtain tr2 a r msg where
      "pings s' = pings s1 @ tr2 @ [(a, r)]" "\<forall>x \<in> set tr2. \<exists>stats. snd x = Run_ok stats"
      "stderr s' = stderr s1 @ [msg]" "aborted_by r e msg"
      by blast
    with tr1 show ?thesis
      by (intro exI[of _ "tr1 @ tr2"] exI[of _ a] exI[of _ r] exI[of _ msg]) auto
  qed
qed

section \<open>harvest, report and main\<close>

lemma Fprintf_stderr_simps [simp]:
  "pings (Fprintf_stderr msg s) = pings s"
  "stdout (Fprintf_stderr msg s) = stdout s"
  "stderr (Fprintf_stderr msg s) = stderr s @ [msg]"
  "world (Fprintf_stderr msg s) = world s"
  by (simp_all add: Fprintf_stderr_def)

lemma Println_loop_simps [simp]:
  "stdout (Println_loop xs s) = stdout s @ xs"
  "pings (Println_loop xs s) = pings s"
  "stderr (Println_loop xs s) = stderr s"
  by (induction xs arbitrary: s) simp_all

lemma report_simps:
  "stdout (report ParseIP hosts s) =
     stdout s @ sort_Slice (\<lambda>a b. bytes_Compare a b < 0) (map ParseIP hosts)"
  "pings (report ParseIP hosts s) = pings s"
  by (simp_all add: report_def Let_def)

lemma harvest_Inr:
  assumes "harvest lib ks arpCache n t s = Inr (hosts, s')"
  shows "stdout s' = stdout s"
    and "\<exists>tr. pings s' = pings s @ tr \<and> (\<forall>x \<in> set tr. \<exists>stats. snd x = Run_ok stats)"
    and "\<exists>rs. hosts = concat rs \<and>
        list_all2 (\<lambda>k found. \<exists>s1 s2.
          getPingableAddresses lib (index (group arpCache) k) n t s1 = Inr (found, s2)) ks rs"
proof -
  let ?s3 = "Fprintf_stderr ''Pinging IP addresses ... ''
      (Fprintf_stderr (''success'' @ [CHR 0x0A]) (Fprintf_stderr ''Parsing ARP cache ... '' s))"
  from assms obtain s4 where
    run: "interfaces_loop lib (group arpCache) n t ks [] ?s3 = Inr (hosts, s4)" and
    s': "s' = Fprintf_stderr (''success'' @ [CHR 0x0A, CHR 0x0A]) s4"
    by (auto simp: harvest_def Let_def split: sum.splits)
  from interfaces_loop_stdout[of lib "group arpCache" n t ks "[]" ?s3] run s'
  show "stdout s' = stdout s" by simp
  from interfaces_loop_Inr[OF run] s'
  show "\<exists>tr. pings s' = pings s @ tr \<and> (\<forall>x \<in> set tr. \<exists>stats. snd x = Run_ok stats)"
    by simp
  from interfaces_loop_Inr[OF run]
  show "\<exists>rs. hosts = concat rs \<and>
        list_all2 (\<lambda>k found. \<exists>s1 s2.
          getPingableAddresses lib (index (group arpCache) k) n t s1 = Inr (found, s2)) ks rs"
    by simp
qed

lemma harvest_Inl:
  assumes "harvest lib ks arpCache n t s = Inl (e, s')"
  shows "stdout s' = stdout s"
    and "\<exists>tr a r. pings s' = pings s @ tr @ [(a, r)] \<and>
           (\<forall>x \<in> set tr. \<exists>stats. snd x = Run_ok stats) \<and>
           stderr s' \<noteq> [] \<and> aborted_by r e (last (stderr s'))"
proof -
  let ?s3 = "Fprintf_stderr ''Pinging IP addresses ... ''
      (Fprintf_stderr (''success'' @ [CHR 0x0A]) (Fprintf_stderr ''Parsing ARP cache ... '' s))"
  from assms have run: "interfaces_loop lib (group arpCache) n t ks [] ?s3 = Inl (e, s')"
    by (auto simp: harvest_def Let_def split: sum.splits)
  from interfaces_loop_stdout[of lib "group arpCache" n t ks "[]" ?s3] run
  show "stdout s' = stdout s" by simp
  from interfaces_loop_Inl[OF run] obtain tr a r msg where
    "pings s' = pings ?s3 @ tr @ [(a, r)]" "\<forall>x \<in> set tr. \<exists>stats. snd x = Run_ok stats"
    "stderr s' = stderr ?s3 @ [msg]" "aborted_by r e msg" by blast
  then show "\<exists>tr a r. pings s' = pings s @ tr @ [(a, r)] \<and>
           (\<forall>x \<in> set tr. \<exists>stats. snd x = Run_ok stats) \<and>
           stderr s' \<noteq> [] \<and> aborted_by r e (last (stderr s'))"
    by (intro exI[of _ tr] exI[of _ a] exI[of _ r]) simp
qed

lemma main_Inr:
  "main lib ParseIP ks arpCache n t s = Inr (u, s') \<longleftrightarrow>
     (\<exists>hosts s1. harvest lib ks arpCache n t s = Inr (hosts, s1) \<and> s' = report ParseIP hosts s1)"
  by (auto simp: main_def split: sum.splits)

lemma main_Inl:
  "main lib ParseIP ks arpCache n t s = Inl a \<longleftrightarrow> harvest lib ks arpCache n t s = Inl a"
  by (auto simp: main_def split: sum.splits)


section \<open>Properties of the whole run\<close>

lemmas main_defs = main_def harvest_def report_def group_def index_def entry_def always_def
  Fprintf_stderr_def

lemmas parse_defs = net_ParseIP_def no_IPv6_def parseIPv4_def dtoi_def is_digit_def IPv4_def
  v4InV6Prefix_def

text \<open>The sorting step commutes with the parsing: it permutes the strings by their parsed value.\<close>

lemma insert_by_map:
  "map f (insert_by (\<lambda>a b. lt (f a) (f b)) x ys) = insert_by lt (f x) (map f ys)"
  by (induction ys) simp_all

lemma sort_Slice_map:
  "map f (sort_Slice (\<lambda>a b. lt (f a) (f b)) xs) = sort_Slice lt (map f xs)"
  by (induction xs) (simp_all add: insert_by_map)

text \<open>
  Claim C5: the lines printed by a run that completes are in ascending order of
  \<open>bytes.Compare\<close> on the parsed addresses, not of the text: 10.0.0.2 is printed before
  10.0.0.10 (the witness runs \<open>main\<close> on 10.0.0.2, 10.0.0.10 and 10.0.0.1).
\<close>

theorem output_sorted:
  assumes "main lib ParseIP ks arpCache numAddresses timeout (start w) = Inr (u, s')"
  shows "sorted_wrt (\<lambda>a b. bytes_Compare a b \<le> 0) (stdout s')"
proof -
  from assms obtain hosts s1 where
    h: "harvest lib ks arpCache numAddresses timeout (start w) = Inr (hosts, s1)" and
    s': "s' = report ParseIP hosts s1"
    by (auto simp: main_Inr)
  from harvest_Inr(1)[OF h] have "stdout s1 = []" by (simp add: start_def)
  with s' show ?thesis by (simp add: report_simps sort_Slice_sorted)
qed

theorem output_sorted_witness:
  "main (always up) (net_ParseIP no_IPv6) [''eth0'']
      \<lparr>Entries = [entry ''eth0'' ''10.0.0.2'', entry ''eth0'' ''10.0.0.10'', entry ''eth0'' ''10.0.0.1'']\<rparr>
      3 250 (start ()) =
    Inr ((), final (main (always up) (net_ParseIP no_IPv6) [''eth0'']
      \<lparr>Entries = [entry ''eth0'' ''10.0.0.2'', entry ''eth0'' ''10.0.0.10'', entry ''eth0'' ''10.0.0.1'']\<rparr>
      3 250 (start ()))) \<and>
   stdout (final (main (always up) (net_ParseIP no_IPv6) [''eth0'']
      \<lparr>Entries = [entry ''eth0'' ''10.0.0.2'', entry ''eth0'' ''10.0.0.10'', entry ''eth0'' ''10.0.0.1'']\<rparr>
      3 250 (start ()))) = [IPv4 10 0 0 1, IPv4 10 0 0 2, IPv4 10 0 0 10] \<and>
   sorted_wrt (\<lambda>a b. bytes_Compare a b \<le> 0) [IPv4 10 0 0 1, IPv4 10 0 0 2, IPv4 10 0 0 10]"
proof -
  let ?run = "main (always up) (net_ParseIP no_IPv6) [''eth0'']
      \<lparr>Entries = [entry ''eth0'' ''10.0.0.2'', entry ''eth0'' ''10.0.0.10'', entry ''eth0'' ''10.0.0.1'']\<rparr>
      3 250 (start ())"
  have run: "?run = Inr ((), final ?run)"
    by (simp add: main_defs run_defs)
  have out: "stdout (final ?run) = [IPv4 10 0 0 1, IPv4 10 0 0 2, IPv4 10 0 0 10]"
    by (simp add: main_defs run_defs parse_defs)
  from output_sorted[OF run] out run show ?thesis by simp
qed

text \<open>
  Claim C6 says that a harvested address that does not parse as an IP makes the run
  fail.  The code never looks at what \<open>net.ParseIP\<close> returns: for the entries 10.0.0.2
  and localhost, both answering, \<open>localhost\<close> is harvested, parses to nil, and the run
  completes with two lines, the nil address first.
\<close>

theorem parse_failure_not_fatal:
  "net_ParseIP no_IPv6 ''localhost'' = [] \<and>
   returned (harvest (always up) [''eth0'']
      \<lparr>Entries = [entry ''eth0'' ''10.0.0.2'', entry ''eth0'' ''localhost'']\<rparr> 2 250 (start ())) =
     Some [''10.0.0.2'', ''localhost''] \<and>
   \<not> isl (main (always up) (net_ParseIP no_IPv6) [''eth0'']
      \<lparr>Entries = [entry ''eth0'' ''10.0.0.2'', entry ''eth0'' ''localhost'']\<rparr> 2 250 (start ())) \<and>
   stdout (final (main (always up) (net_ParseIP no_IPv6) [''eth0'']
      \<lparr>Entries = [entry ''eth0'' ''10.0.0.2'', entry ''eth0'' ''localhost'']\<rparr> 2 250 (start ()))) =
     [[], IPv4 10 0 0 2]"
  by (simp add: main_defs run_defs parse_defs)

text \<open>
  Claim C6 as amended: a harvested address that does not parse as an IP is not an error.
  Whenever the harvest returns, the run completes; it prints one nil address for each
  harvested string that does not parse, ahead of the parsed addresses in sorted order.
\<close>

theorem unparsed_address_kept:
  assumes "harvest lib ks arpCache numAddresses timeout (start w) = Inr (pingableHosts, s1)"
  shows "\<exists>s'. main lib ParseIP ks arpCache numAddresses timeout (start w) = Inr ((), s') \<and>
           stdout s' =
             replicate (length (filter (\<lambda>h. ParseIP h = []) pingableHosts)) [] @
             sort_Slice (\<lambda>a b. bytes_Compare a b < 0)
               (filter (\<lambda>a. a \<noteq> []) (map ParseIP pingableHosts))"
proof -
  from assms have run: "main lib ParseIP ks arpCache numAddresses timeout (start w) =
      Inr ((), report ParseIP pingableHosts s1)"
    by (simp add: main_def)
  from harvest_Inr(1)[OF assms] have "stdout s1 = []" by (simp add: start_def)
  then have "stdout (report ParseIP pingableHosts s1) =
      sort_Slice (\<lambda>a b. bytes_Compare a b < 0) (map ParseIP pingableHosts)"
    by (simp add: report_simps)
  also have "\<dots> =
      replicate (length (filter (\<lambda>a. a = []) (map ParseIP pingableHosts))) [] @
      sort_Slice (\<lambda>a b. bytes_Compare a b < 0)
        (filter (\<lambda>a. a \<noteq> []) (map ParseIP pingableHosts))"
    by (rule sort_Slice_nil_first)
  also have "length (filter (\<lambda>a. a = []) (map ParseIP pingableHosts)) =
      length (filter (\<lambda>h. ParseIP h = []) pingableHosts)"
    by (simp add: filter_map comp_def)
  finally show ?thesis using run by simp
qed

theorem unparsed_address_kept_witness:
  "harvest (always up) [''eth0'']
      \<lparr>Entries = [entry ''eth0'' ''10.0.0.2'', entry ''eth0'' ''localhost'']\<rparr> 2 250 (start ()) =
     Inr ([''10.0.0.2'', ''localhost''], final (harvest (always up) [''eth0'']
      \<lparr>Entries = [entry ''eth0'' ''10.0.0.2'', entry ''eth0'' ''localhost'']\<rparr> 2 250 (start ()))) \<and>
   (\<exists>s'. main (always up) (net_ParseIP no_IPv6) [''eth0'']
      \<lparr>Entries = [entry ''eth0'' ''10.0.0.2'', entry ''eth0'' ''localhost'']\<rparr> 2 250 (start ()) =
        Inr ((), s') \<and>
      stdout s' = [[], IPv4 10 0 0 2])"
proof -
  let ?cache = "\<lparr>Entries = [entry ''eth0'' ''10.0.0.2'', entry ''eth0'' ''localhost'']\<rparr>"
  let ?h = "harvest (always up) [''eth0''] ?cache 2 250 (start ())"
  have h: "?h = Inr ([''10.0.0.2'', ''localhost''], final ?h)"
    by (simp add: main_defs run_defs)
  have p1: "net_ParseIP no_IPv6 ''10.0.0.2'' = IPv4 10 0 0 2"
    by (simp add: parse_defs)
  have p2: "net_ParseIP no_IPv6 ''localhost'' = []"
    by (simp add: parse_defs)
  have p3: "IPv4 10 0 0 2 \<noteq> []" by (simp add: IPv4_def)
  from unparsed_address_kept[OF h, of "net_ParseIP no_IPv6"] h show ?thesis
    by (simp add: p1 p2 p3)
qed

text \<open>
  Claim C7: nothing is removed and nothing is merged.  In a run that completes, with the
  keys of the map visited in the order \<open>ks\<close>, there is one result of
  \<open>getPingableAddresses\<close> for each interface, and the lines printed are the parsed
  values of a permutation of the concatenation of these results: an address that answered
  on two interfaces is printed twice.
\<close>

theorem duplicates_preserved:
  assumes "range_order (group arpCache) ks"
    and "main lib ParseIP ks arpCache numAddresses timeout (start w) = Inr (u, s')"
  shows "\<exists>rs p. list_all2 (\<lambda>k found. \<exists>s1 s2.
             getPingableAddresses lib (index (group arpCache) k) numAddresses timeout s1 =
               Inr (found, s2)) ks rs \<and>
           mset p = mset (concat rs) \<and> stdout s' = map ParseIP p \<and>
           length (stdout s') = length (concat rs)"
proof -
  from assms(2) obtain hosts s1 where
    h: "harvest lib ks arpCache numAddresses timeout (start w) = Inr (hosts, s1)" and
    s': "s' = report ParseIP hosts s1"
    by (auto simp: main_Inr)
  let ?p = "sort_Slice (\<lambda>a b. bytes_Compare (ParseIP a) (ParseIP b) < 0) hosts"
  from harvest_Inr(1)[OF h] have "stdout s1 = []" by (simp add: start_def)
  with s' have "stdout s' = sort_Slice (\<lambda>a b. bytes_Compare a b < 0) (map ParseIP hosts)"
    by (simp add: report_simps)
  then have out: "stdout s' = map ParseIP ?p"
    by (simp add: sort_Slice_map[of ParseIP "\<lambda>a b. bytes_Compare a b < 0"])
  have p: "mset ?p = mset hosts" by (rule mset_sort_Slice)
  then have "size (mset ?p) = size (mset hosts)" by simp
  with out have l: "length (stdout s') = length hosts" by simp
  from harvest_Inr(3)[OF h] obtain rs where
    "hosts = concat rs"
    "list_all2 (\<lambda>k found. \<exists>s1 s2.
        getPingableAddresses lib (index (group arpCache) k) numAddresses timeout s1 =
          Inr (found, s2)) ks rs"
    by blast
  with out p l show ?thesis by blast
qed

theorem duplicates_preserved_witness:
  "range_order (group \<lparr>Entries = [entry ''eth0'' ''192.168.1.5'', entry ''eth1'' ''10.0.0.1'',
      entry ''eth1'' ''192.168.1.5'']\<rparr>) [''eth1'', ''eth0''] \<and>
   main (always up) (net_ParseIP no_IPv6) [''eth1'', ''eth0'']
      \<lparr>Entries = [entry ''eth0'' ''192.168.1.5'', entry ''eth1'' ''10.0.0.1'',
         entry ''eth1'' ''192.168.1.5'']\<rparr> 2 250 (start ()) =
    Inr ((), final (main (always up) (net_ParseIP no_IPv6) [''eth1'', ''eth0'']
      \<lparr>Entries = [entry ''eth0'' ''192.168.1.5'', entry ''eth1'' ''10.0.0.1'',
         entry ''eth1'' ''192.168.1.5'']\<rparr> 2 250 (start ()))) \<and>
   stdout (final (main (always up) (net_ParseIP no_IPv6) [''eth1'', ''eth0'']
      \<lparr>Entries = [entry ''eth0'' ''192.168.1.5'', entry ''eth1'' ''10.0.0.1'',
         entry ''eth1'' ''192.168.1.5'']\<rparr> 2 250 (start ()))) =
     [IPv4 10 0 0 1, IPv4 192 168 1 5, IPv4 192 168 1 5]"
proof -
  let ?cache = "\<lparr>Entries = [entry ''eth0'' ''192.168.1.5'', entry ''eth1'' ''10.0.0.1'',
         entry ''eth1'' ''192.168.1.5'']\<rparr>"
  let ?run = "main (always up) (net_ParseIP no_IPv6) [''eth1'', ''eth0''] ?cache 2 250 (start ())"
  have order: "range_order (group ?cache) [''eth1'', ''eth0'']"
    by (auto simp: range_order_def group_def index_def entry_def)
  have run: "?run = Inr ((), final ?run)"
    by (simp add: main_defs run_defs)
  have out: "stdout (final ?run) = [IPv4 10 0 0 1, IPv4 192 168 1 5, IPv4 192 168 1 5]"
    by (simp add: main_defs run_defs parse_defs)
  from duplicates_preserved[OF order run] order run out show ?thesis by simp
qed

text \<open>
  Claim C9: if the library fails on any probe of a run (\<open>pinger.Run\<close> returns an error, or
  \<open>ping.NewPinger\<close> does), the run aborts at that probe with an exit status other than 0,
  the diagnostic is the last text on standard error, and nothing has been printed on
  standard output.
\<close>

theorem probe_failure_aborts:
  assumes "x \<in> set (pings (final (main lib ParseIP ks arpCache numAddresses timeout (start w))))"
    and "\<not> (\<exists>stats. snd x = Run_ok stats)"
  shows "\<exists>e s'. main lib ParseIP ks arpCache numAddresses timeout (start w) = Inl (e, s') \<and>
           exit_status e \<noteq> 0 \<and> stdout s' = [] \<and> stderr s' \<noteq> [] \<and>
           aborted_by (snd x) e (last (stderr s')) \<and> last (pings s') = x"
proof (cases "main lib ParseIP ks arpCache numAddresses timeout (start w)")
  case (Inl a)
  obtain e s' where a: "a = (e, s')" by (cases a)
  with Inl have h: "harvest lib ks arpCache numAddresses timeout (start w) = Inl (e, s')"
    by (simp add: main_Inl)
  from harvest_Inl(1)[OF h] have out: "stdout s' = []" by (simp add: start_def)
  from harvest_Inl(2)[OF h] obtain tr b r where
    tr: "pings s' = tr @ [(b, r)]" "\<forall>x \<in> set tr. \<exists>stats. snd x = Run_ok stats"
      "stderr s' \<noteq> []" "aborted_by r e (last (stderr s'))"
    by (auto simp: start_def)
  from assms Inl a tr(1,2) have x: "x = (b, r)" by auto
  from tr(4) have "exit_status e \<noteq> 0" by (simp add: aborted_by_status)
  with Inl a out tr x show ?thesis by simp
next
  case (Inr b)
  obtain u s' where b: "b = (u, s')" by (cases b)
  with Inr obtain hosts s1 where
    h: "harvest lib ks arpCache numAddresses timeout (start w) = Inr (hosts, s1)" and
    s': "s' = report ParseIP hosts s1"
    by (auto simp: main_Inr)
  from harvest_Inr(2)[OF h] s' have "\<forall>x \<in> set (pings s'). \<exists>stats. snd x = Run_ok stats"
    by (auto simp: start_def report_simps)
  with assms Inr b show ?thesis by auto
qed

theorem probe_failure_aborts_witness:
  "(''10.0.0.2'', Run_err) \<in> set (pings (final (main (answers (\<lambda>a. if a = ''10.0.0.2'' then Run_err else up)) (net_ParseIP no_IPv6) [''eth0'']
      \<lparr>Entries = [entry ''eth0'' ''10.0.0.1'', entry ''eth0'' ''10.0.0.2'']\<rparr> 2 250 (start ())))) \<and>
   main (answers (\<lambda>a. if a = ''10.0.0.2'' then Run_err else up)) (net_ParseIP no_IPv6) [''eth0'']
      \<lparr>Entries = [entry ''eth0'' ''10.0.0.1'', entry ''eth0'' ''10.0.0.2'']\<rparr> 2 250 (start ()) =
     Inl (os_Exit 1, final (main (answers (\<lambda>a. if a = ''10.0.0.2'' then Run_err else up)) (net_ParseIP no_IPv6) [''eth0'']
      \<lparr>Entries = [entry ''eth0'' ''10.0.0.1'', entry ''eth0'' ''10.0.0.2'']\<rparr> 2 250 (start ()))) \<and>
   stdout (final (main (answers (\<lambda>a. if a = ''10.0.0.2'' then Run_err else up)) (net_ParseIP no_IPv6) [''eth0'']
      \<lparr>Entries = [entry ''eth0'' ''10.0.0.1'', entry ''eth0'' ''10.0.0.2'']\<rparr> 2 250 (start ()))) = [] \<and>
   last (stderr (final (main (answers (\<lambda>a. if a = ''10.0.0.2'' then Run_err else up)) (net_ParseIP no_IPv6) [''eth0'']
      \<lparr>Entries = [entry ''eth0'' ''10.0.0.1'', entry ''eth0'' ''10.0.0.2'']\<rparr> 2 250 (start ())))) = sudo_msg"
proof -
  let ?run = "main (answers (\<lambda>a. if a = ''10.0.0.2'' then Run_err else up)) (net_ParseIP no_IPv6) [''eth0'']
      \<lparr>Entries = [entry ''eth0'' ''10.0.0.1'', entry ''eth0'' ''10.0.0.2'']\<rparr> 2 250 (start ())"
  have run: "?run = Inl (os_Exit 1, final ?run)"
    by (simp add: main_defs run_defs)
  have x: "(''10.0.0.2'', Run_err) \<in> set (pings (final ?run))"
    by (simp add: main_defs run_defs)
  have "last (stderr (final ?run)) = sudo_msg"
    by (simp add: main_defs run_defs)
  with probe_failure_aborts[OF x] run x show ?thesis by auto
qed

end
